theory Spec2Isabelle
  imports Main
begin

section \<open>The polling provider of useClientDataState.tsx\<close>

text \<open>
  The module holds two lookup tables keyed by endpoint name, a component
  \<open>ClientDataProvider\<close> that fetches one endpoint when it mounts and then once per
  second, and a hook \<open>useClientDataState\<close> that reads what a provider publishes.
  The event loop is single-threaded, so the module is modelled as a deterministic
  transition function on a record of everything the code reads or writes: the two tables,
  a clock in milliseconds, the providers mounted so far, the promises still pending, the log of
  requests sent, the snackbars enqueued and the exceptions nobody caught.
\<close>

subsection \<open>Data\<close>

text \<open>The keys of the object literal \<open>clientEndpoints\<close>: the type \<open>keyof typeof clientEndpoints\<close>.\<close>

datatype endpoint = sweeps | notebooks | tensorboards

text \<open>The three generated client methods the table's arrow functions call.\<close>

datatype api_call =
    showSweepsCommandShowSweepsPost
  | showNotebooksCommandShowNotebooksPost
  | showTensorboardsCommandShowTensorboardsPost

text \<open>
  A React context object: its identity (contexts are compared by reference) and the default
  value given to \<open>createContext\<close>.
\<close>

record 'a ctx =
  ctx_id :: nat
  defaultValue :: "'a list"

definition createContext :: "nat \<Rightarrow> 'a list \<Rightarrow> 'a ctx" where
  "createContext i d = \<lparr>ctx_id = i, defaultValue = d\<rparr>"

definition clientEndpoints :: "(endpoint \<times> api_call) list" where
  "clientEndpoints =
     [(sweeps, showSweepsCommandShowSweepsPost),
      (notebooks, showNotebooksCommandShowNotebooksPost),
      (tensorboards, showTensorboardsCommandShowTensorboardsPost)]"

definition clientDataContexts :: "(endpoint \<times> 'a ctx) list" where
  "clientDataContexts =
     [(sweeps, createContext 0 []),
      (notebooks, createContext 1 []),
      (tensorboards, createContext 2 [])]"

text \<open>
  One \<open>ClientDataProvider\<close> that was mounted. \<open>props_endpoint\<close> is \<open>props.endpoint\<close> of the
  latest render; \<open>effect_endpoint\<close> is \<open>props.endpoint\<close> of the render whose effect ran,
  which is the one the closure \<open>post\<close> reads; \<open>state\<close> is the reducer's state; \<open>interval\<close>
  is the timer made by \<open>setInterval\<close>: \<open>Some due\<close> while it is armed and next fires at
  \<open>due\<close>, \<open>None\<close> when there is none or it was cleared; \<open>mounted\<close> says whether the
  component is still in the tree.
\<close>

record 'a session =
  props_endpoint :: endpoint
  effect_endpoint :: endpoint
  state :: "'a list"
  interval :: "nat option"
  mounted :: bool

record fetch_call =
  at_ms :: nat
  by_session :: nat
  key :: endpoint
  fn :: api_call

record notification =
  title :: string
  children :: string
  severity :: string

datatype js_error = TypeError

text \<open>
  \<open>inflight\<close> pairs the number of a pending promise with the provider whose handlers are
  attached to it; a promise's number is its position in \<open>calls\<close>.
\<close>

record 'a world =
  endpoints_tbl :: "(endpoint \<times> api_call) list"
  contexts_tbl :: "(endpoint \<times> 'a ctx) list"
  clock :: nat
  sessions :: "'a session list"
  inflight :: "(nat \<times> nat) list"
  calls :: "fetch_call list"
  snackbars :: "notification list"
  uncaught :: "js_error list"

text \<open>The module has just been loaded: both tables built, nothing mounted.\<close>

definition module_load :: "'a world" where
  "module_load =
     \<lparr>endpoints_tbl = clientEndpoints, contexts_tbl = clientDataContexts, clock = 0,
      sessions = [], inflight = [], calls = [], snackbars = [], uncaught = []\<rparr>"

subsection \<open>The provider\<close>

definition update_session :: "nat \<Rightarrow> ('a session \<Rightarrow> 'a session) \<Rightarrow> 'a world \<Rightarrow> 'a world" where
  "update_session sid f w =
     (if sid < length (sessions w)
      then w\<lparr>sessions := (sessions w)[sid := f (sessions w ! sid)]\<rparr>
      else w)"

text \<open>The reducer \<open>(state, newValue) => newValue\<close> and the \<open>dispatch\<close> that \<open>useReducer\<close> returns.\<close>

definition reducer :: "'a list \<Rightarrow> 'a list \<Rightarrow> 'a list" where
  "reducer st newValue = newValue"

definition dispatch :: "'a world \<Rightarrow> nat \<Rightarrow> 'a list \<Rightarrow> 'a world" where
  "dispatch w sid newValue = update_session sid (\<lambda>s. s\<lparr>state := reducer (state s) newValue\<rparr>) w"

definition enqueueSnackbar :: "'a world \<Rightarrow> notification \<Rightarrow> 'a world" where
  "enqueueSnackbar w n = w\<lparr>snackbars := snackbars w @ [n]\<rparr>"

text \<open>
  \<open>post\<close>, up to the point where the request is sent: \<open>clientEndpoints[props.endpoint](appClient)\<close>.
  A key the table lacks gives \<open>undefined\<close>, and calling it throws a TypeError (\<open>None\<close>).
  Otherwise the request is logged and its promise is pending, with this provider's two
  handlers attached.
\<close>

definition post :: "'a world \<Rightarrow> nat \<Rightarrow> endpoint \<Rightarrow> 'a world option" where
  "post w sid k =
     (case map_of (endpoints_tbl w) k of
        None \<Rightarrow> None
      | Some f \<Rightarrow>
          Some (w\<lparr>inflight := inflight w @ [(length (calls w), sid)],
                  calls := calls w @ [\<lparr>at_ms = clock w, by_session = sid, key = k, fn = f\<rparr>]\<rparr>))"

definition setInterval :: "'a world \<Rightarrow> nat \<Rightarrow> 'a world" where
  "setInterval w sid = update_session sid (\<lambda>s. s\<lparr>interval := Some (clock w + 1000)\<rparr>) w"

definition clearInterval :: "'a world \<Rightarrow> nat \<Rightarrow> 'a world" where
  "clearInterval w sid = update_session sid (\<lambda>s. s\<lparr>interval := None\<rparr>) w"

text \<open>
  The body of the effect: \<open>post()\<close>, then \<open>setInterval\<close>. An exception in \<open>post()\<close> leaves
  the effect before the timer is made.
\<close>

definition effect :: "'a world \<Rightarrow> nat \<Rightarrow> 'a world" where
  "effect w sid =
     (if sid < length (sessions w)
      then (case post w sid (effect_endpoint (sessions w ! sid)) of
              None \<Rightarrow> w\<lparr>uncaught := uncaught w @ [TypeError]\<rparr>
            | Some w' \<Rightarrow> setInterval w' sid)
      else w)"

text \<open>
  Mounting \<open><ClientDataProvider endpoint={k}>\<close>: the first render makes the reducer state
  \<open>[]\<close>, then the effect runs once (its dependency array is empty). The new provider's
  number is its position in \<open>sessions\<close>.
\<close>

definition ClientDataProvider :: "'a world \<Rightarrow> endpoint \<Rightarrow> 'a world" where
  "ClientDataProvider w k =
     effect (w\<lparr>sessions := sessions w @
                 [\<lparr>props_endpoint = k, effect_endpoint = k, state = [], interval = None,
                    mounted = True\<rparr>]\<rparr>)
            (length (sessions w))"

text \<open>
  A later render with another \<open>endpoint\<close> prop: the effect does not run again. React renders
  only components that are in the tree.
\<close>

definition rerender :: "'a world \<Rightarrow> nat \<Rightarrow> endpoint \<Rightarrow> 'a world" where
  "rerender w sid k = update_session sid (\<lambda>s. if mounted s then s\<lparr>props_endpoint := k\<rparr> else s) w"

text \<open>The function the effect returns: \<open>() => clearInterval(interval)\<close>.\<close>

definition cleanup :: "'a world \<Rightarrow> nat \<Rightarrow> 'a world" where
  "cleanup w sid = clearInterval w sid"

text \<open>
  The effect's dependency array is empty, so React runs the cleanup at one moment only: when
  it takes the provider out of the tree. From then on the provider renders nothing, and so
  do the readers that stood under it. Its record stays in \<open>sessions\<close>: the closures of the
  effect, and with them the handlers on its pending promises, outlive the component.
\<close>

definition unmount :: "'a world \<Rightarrow> nat \<Rightarrow> 'a world" where
  "unmount w sid = update_session sid (\<lambda>s. s\<lparr>mounted := False\<rparr>) (cleanup w sid)"

text \<open>
  The timer's callback \<open>() => { post(); }\<close>; an exception in it is caught by nobody. The
  callback belongs to a mounted provider: it is only run for \<open>sid < length (sessions w)\<close>.
\<close>

definition interval_callback :: "'a world \<Rightarrow> nat \<Rightarrow> 'a world" where
  "interval_callback w sid =
     (case post w sid (effect_endpoint (sessions w ! sid)) of
        None \<Rightarrow> w\<lparr>uncaught := uncaught w @ [TypeError]\<rparr>
      | Some w' \<Rightarrow> w')"

text \<open>
  The clock. A timer that is due is re-armed one period later and its callback runs.
  One millisecond passes by moving the clock and serving the timers in the order they were
  made; \<open>elapse n\<close> is \<open>n\<close> such milliseconds.
\<close>

definition fire_due :: "nat \<Rightarrow> 'a world \<Rightarrow> 'a world" where
  "fire_due sid w =
     (if sid < length (sessions w)
      then (case interval (sessions w ! sid) of
              None \<Rightarrow> w
            | Some due \<Rightarrow>
                if due \<le> clock w
                then interval_callback (update_session sid (\<lambda>s. s\<lparr>interval := Some (due + 1000)\<rparr>) w) sid
                else w)
      else w)"

definition tick_ms :: "'a world \<Rightarrow> 'a world" where
  "tick_ms w = fold fire_due [0..<length (sessions w)] (w\<lparr>clock := Suc (clock w)\<rparr>)"

definition elapse :: "nat \<Rightarrow> 'a world \<Rightarrow> 'a world" where
  "elapse n w = (tick_ms ^^ n) w"

text \<open>
  A pending promise settles. \<open>.then(data => dispatch(data))\<close> runs on fulfilment,
  \<open>.catch(error => enqueueSnackbar({...}))\<close> on rejection; the handler never reads \<open>error\<close>.
  A promise settles once: a number that is not pending does nothing.
\<close>

definition fetch_failed :: notification where
  "fetch_failed =
     \<lparr>title = ''Error Fetching Data'', children = ''Try reloading the page'', severity = ''error''\<rparr>"

definition settle :: "'a world \<Rightarrow> nat \<Rightarrow> 'a world" where
  "settle w fid = w\<lparr>inflight := filter (\<lambda>p. fst p \<noteq> fid) (inflight w)\<rparr>"

definition resolve :: "'a world \<Rightarrow> nat \<Rightarrow> 'a list \<Rightarrow> 'a world" where
  "resolve w fid data =
     (case map_of (inflight w) fid of
        None \<Rightarrow> w
      | Some sid \<Rightarrow> dispatch (settle w fid) sid data)"

definition reject :: "'a world \<Rightarrow> nat \<Rightarrow> 'e \<Rightarrow> 'a world" where
  "reject w fid error =
     (case map_of (inflight w) fid of
        None \<Rightarrow> w
      | Some sid \<Rightarrow> enqueueSnackbar (settle w fid) fetch_failed)"

subsection \<open>The reader\<close>

text \<open>
  What a provider renders: \<open><context.Provider value={state}>\<close> for
  \<open>context = clientDataContexts[props.endpoint]\<close>; \<open>None\<close> is the TypeError of reading
  \<open>.Provider\<close> of \<open>undefined\<close>.
\<close>

definition render :: "'a world \<Rightarrow> 'a session \<Rightarrow> ('a ctx \<times> 'a list) option" where
  "render w s =
     (case map_of (contexts_tbl w) (props_endpoint s) of
        None \<Rightarrow> None
      | Some c \<Rightarrow> Some (c, state s))"

text \<open>
  \<open>React.useContext\<close>: the value of the nearest enclosing provider of that very context,
  or the context's default. The providers above the reader are listed innermost first;
  only those still in the tree render.
\<close>

fun useContext :: "'a ctx \<Rightarrow> ('a ctx \<times> 'a list) list \<Rightarrow> 'a list" where
  "useContext c [] = defaultValue c"
| "useContext c ((c', v) # ps) = (if ctx_id c' = ctx_id c then v else useContext c ps)"

definition providers :: "'a world \<Rightarrow> nat list \<Rightarrow> ('a ctx \<times> 'a list) list" where
  "providers w encl =
     List.map_filter
       (\<lambda>sid. if sid < length (sessions w) \<and> mounted (sessions w ! sid)
              then render w (sessions w ! sid) else None) encl"

text \<open>
  The hook, called in a component whose enclosing \<open>ClientDataProvider\<close>s are \<open>encl\<close>
  (innermost first): \<open>React.useContext(clientDataContexts[endpoint])\<close>. \<open>None\<close> is the error
  of a key the table lacks.
\<close>

definition useClientDataState :: "'a world \<Rightarrow> nat list \<Rightarrow> endpoint \<Rightarrow> 'a list option" where
  "useClientDataState w encl k =
     (case map_of (contexts_tbl w) k of
        None \<Rightarrow> None
      | Some c \<Rightarrow> Some (useContext c (providers w encl)))"

subsection \<open>Runs\<close>

datatype ('a, 'e) event =
    Mount endpoint
  | Rerender nat endpoint
  | Unmount nat
  | Elapse nat
  | Resolve nat "'a list"
  | Reject nat 'e

fun step :: "'a world \<Rightarrow> ('a, 'e) event \<Rightarrow> 'a world" where
  "step w (Mount k) = ClientDataProvider w k"
| "step w (Rerender sid k) = rerender w sid k"
| "step w (Unmount sid) = unmount w sid"
| "step w (Elapse n) = elapse n w"
| "step w (Resolve fid data) = resolve w fid data"
| "step w (Reject fid error) = reject w fid error"

definition run :: "'a world \<Rightarrow> ('a, 'e) event list \<Rightarrow> 'a world" where
  "run w evs = foldl step w evs"

definition calls_of :: "nat \<Rightarrow> 'a world \<Rightarrow> fetch_call list" where
  "calls_of sid w = filter (\<lambda>c. by_session c = sid) (calls w)"

subsection \<open>Invariants of the module\<close>

text \<open>Both tables are the ones built at load time.\<close>

definition tables_ok :: "'a world \<Rightarrow> bool" where
  "tables_ok w \<longleftrightarrow> endpoints_tbl w = clientEndpoints \<and> contexts_tbl w = clientDataContexts"

text \<open>Every logged request was sent by a mounted provider, for the endpoint its effect captured.\<close>

definition calls_ok :: "'a world \<Rightarrow> bool" where
  "calls_ok w \<longleftrightarrow>
     list_all (\<lambda>c. by_session c < length (sessions w) \<and>
                    key c = effect_endpoint (sessions w ! by_session c)) (calls w)"

text \<open>
  Every pending promise belongs to a logged request and to a mounted provider, the one that
  sent the request.
\<close>

definition inflight_ok :: "'a world \<Rightarrow> bool" where
  "inflight_ok w \<longleftrightarrow>
     list_all (\<lambda>p. fst p < length (calls w) \<and> snd p < length (sessions w) \<and>
                    by_session (calls w ! fst p) = snd p) (inflight w)"

text \<open>
  Provider \<open>sid\<close>, whose effect ran at time \<open>t0\<close> for endpoint \<open>k\<close>, is on schedule at time
  \<open>c\<close>: it is in the tree, it has sent one request at \<open>t0\<close> and one every 1000 ms since, and its timer is
  armed for the next multiple.
\<close>

definition polling :: "nat \<Rightarrow> nat \<Rightarrow> endpoint \<Rightarrow> api_call \<Rightarrow> nat \<Rightarrow> 'a world \<Rightarrow> bool" where
  "polling sid t0 k f c w \<longleftrightarrow>
     sid < length (sessions w) \<and> map_of (endpoints_tbl w) k = Some f \<and> t0 \<le> c \<and>
     effect_endpoint (sessions w ! sid) = k \<and> mounted (sessions w ! sid) \<and>
     interval (sessions w ! sid) = Some (t0 + 1000 * Suc ((c - t0) div 1000)) \<and>
     calls_of sid w =
       map (\<lambda>j. \<lparr>at_ms = t0 + 1000 * j, by_session = sid, key = k, fn = f\<rparr>)
           [0..<Suc ((c - t0) div 1000)]"

text \<open>No provider has a state other than the empty array.\<close>

definition all_empty :: "'a world \<Rightarrow> bool" where
  "all_empty w \<longleftrightarrow> list_all (\<lambda>s. state s = []) (sessions w)"

section \<open>Frame lemmas\<close>

lemma update_session_simps [simp]:
  "endpoints_tbl (update_session sid f w) = endpoints_tbl w"
  "contexts_tbl (update_session sid f w) = contexts_tbl w"
  "clock (update_session sid f w) = clock w"
  "inflight (update_session sid f w) = inflight w"
  "calls (update_session sid f w) = calls w"
  "snackbars (update_session sid f w) = snackbars w"
  "uncaught (update_session sid f w) = uncaught w"
  "length (sessions (update_session sid f w)) = length (sessions w)"
  by (simp_all add: update_session_def)

lemma update_session_nth:
  "j < length (sessions w) \<Longrightarrow>
   sessions (update_session sid f w) ! j = (if j = sid then f (sessions w ! j) else sessions w ! j)"
  by (simp add: update_session_def)

lemma calls_of_simps [simp]:
  "calls_of j (update_session sid f w) = calls_of j w"
  "calls_of j (w\<lparr>clock := c\<rparr>) = calls_of j w"
  "calls_of j (w\<lparr>uncaught := u\<rparr>) = calls_of j w"
  "calls_of j (w\<lparr>sessions := ss\<rparr>) = calls_of j w"
  "calls_of j (w\<lparr>inflight := ps\<rparr>) = calls_of j w"
  "calls_of j (w\<lparr>snackbars := ns\<rparr>) = calls_of j w"
  by (simp_all add: calls_of_def)

lemma post_Some:
  "post w sid k = Some w' \<Longrightarrow>
   endpoints_tbl w' = endpoints_tbl w \<and> contexts_tbl w' = contexts_tbl w \<and> clock w' = clock w \<and>
   sessions w' = sessions w \<and> snackbars w' = snackbars w \<and> uncaught w' = uncaught w \<and>
   inflight w' = inflight w @ [(length (calls w), sid)] \<and>
   (\<exists>f. map_of (endpoints_tbl w) k = Some f \<and>
        calls w' = calls w @ [\<lparr>at_ms = clock w, by_session = sid, key = k, fn = f\<rparr>])"
  by (auto simp: post_def split: option.splits)

lemma interval_callback_simps [simp]:
  "endpoints_tbl (interval_callback w sid) = endpoints_tbl w"
  "contexts_tbl (interval_callback w sid) = contexts_tbl w"
  "clock (interval_callback w sid) = clock w"
  "sessions (interval_callback w sid) = sessions w"
  "snackbars (interval_callback w sid) = snackbars w"
  by (auto simp: interval_callback_def dest: post_Some split: option.splits)

lemma calls_interval_callback:
  "calls (interval_callback w sid) =
     calls w @ (case map_of (endpoints_tbl w) (effect_endpoint (sessions w ! sid)) of
                  None \<Rightarrow> []
                | Some f \<Rightarrow> [\<lparr>at_ms = clock w, by_session = sid,
                             key = effect_endpoint (sessions w ! sid), fn = f\<rparr>])"
  by (auto simp: interval_callback_def post_def split: option.splits)

lemma calls_of_interval_callback_other:
  "j \<noteq> sid \<Longrightarrow> calls_of j (interval_callback w sid) = calls_of j w"
  by (simp add: calls_of_def calls_interval_callback split: option.splits)

lemma fire_due_simps [simp]:
  "endpoints_tbl (fire_due sid w) = endpoints_tbl w"
  "contexts_tbl (fire_due sid w) = contexts_tbl w"
  "clock (fire_due sid w) = clock w"
  "snackbars (fire_due sid w) = snackbars w"
  "length (sessions (fire_due sid w)) = length (sessions w)"
  by (simp_all add: fire_due_def split: option.splits)

lemma fire_due_calls_other:
  "j \<noteq> sid \<Longrightarrow> calls_of j (fire_due sid w) = calls_of j w"
  by (simp add: fire_due_def calls_of_interval_callback_other split: option.splits)

lemma fire_due_nth_other:
  "j \<noteq> sid \<Longrightarrow> j < length (sessions w) \<Longrightarrow> sessions (fire_due sid w) ! j = sessions w ! j"
  by (simp add: fire_due_def update_session_nth split: option.splits)

lemma fire_due_idle:
  "sid < length (sessions w) \<Longrightarrow> interval (sessions w ! sid) = None \<Longrightarrow> fire_due sid w = w"
  by (simp add: fire_due_def)

lemma fire_due_session:
  "j < length (sessions w) \<Longrightarrow>
   props_endpoint (sessions (fire_due sid w) ! j) = props_endpoint (sessions w ! j) \<and>
   effect_endpoint (sessions (fire_due sid w) ! j) = effect_endpoint (sessions w ! j) \<and>
   state (sessions (fire_due sid w) ! j) = state (sessions w ! j) \<and>
   mounted (sessions (fire_due sid w) ! j) = mounted (sessions w ! j)"
  by (simp add: fire_due_def update_session_nth split: option.splits)

text \<open>Anything every timer callback and every clock move preserves, time preserves.\<close>

lemma fold_fire_due_preserves:
  assumes "\<And>j w. P w \<Longrightarrow> P (fire_due j w)"
  shows "P w \<Longrightarrow> P (fold fire_due js w)"
  by (induction js arbitrary: w) (simp_all add: assms)

lemma elapse_preserves:
  assumes fire: "\<And>j w. P w \<Longrightarrow> P (fire_due j w)"
    and clk: "\<And>w. P w \<Longrightarrow> P (w\<lparr>clock := Suc (clock w)\<rparr>)"
  shows "P w \<Longrightarrow> P (elapse n w)"
proof (induction n)
  case 0
  then show ?case by (simp add: elapse_def)
next
  case (Suc n)
  then have "P (elapse n w)" by simp
  then have "P ((elapse n w)\<lparr>clock := Suc (clock (elapse n w))\<rparr>)" by (rule clk)
  then have "P (tick_ms (elapse n w))"
    unfolding tick_ms_def using fire by (rule fold_fire_due_preserves [where P = P, rotated])
  then show ?case by (simp add: elapse_def)
qed

lemma ClientDataProvider_simps [simp]:
  "endpoints_tbl (ClientDataProvider w k) = endpoints_tbl w"
  "contexts_tbl (ClientDataProvider w k) = contexts_tbl w"
  "clock (ClientDataProvider w k) = clock w"
  "snackbars (ClientDataProvider w k) = snackbars w"
  by (auto simp: ClientDataProvider_def effect_def setInterval_def post_def split: option.splits)

lemma sessions_ClientDataProvider:
  "sessions (ClientDataProvider w k) =
     sessions w @ [\<lparr>props_endpoint = k, effect_endpoint = k, state = [],
                    interval = (case map_of (endpoints_tbl w) k of
                                  None \<Rightarrow> None | Some f \<Rightarrow> Some (clock w + 1000)),
                    mounted = True\<rparr>]"
  by (auto simp: ClientDataProvider_def effect_def setInterval_def post_def update_session_def
      split: option.splits)

lemma calls_ClientDataProvider:
  "calls (ClientDataProvider w k) =
     calls w @ (case map_of (endpoints_tbl w) k of
                  None \<Rightarrow> []
                | Some f \<Rightarrow> [\<lparr>at_ms = clock w, by_session = length (sessions w), key = k, fn = f\<rparr>])"
  by (auto simp: ClientDataProvider_def effect_def setInterval_def post_def update_session_def
      split: option.splits)

lemma inflight_ClientDataProvider:
  "inflight (ClientDataProvider w k) =
     inflight w @ (case map_of (endpoints_tbl w) k of
                  None \<Rightarrow> []
                | Some f \<Rightarrow> [(length (calls w), length (sessions w))])"
  by (auto simp: ClientDataProvider_def effect_def setInterval_def post_def update_session_def
      split: option.splits)

lemma filter_not_pending: "map_of ps fid = None \<Longrightarrow> filter (\<lambda>p. fst p \<noteq> fid) ps = ps"
  by (induction ps) (auto split: if_splits)

lemma resolve_simps [simp]:
  "endpoints_tbl (resolve w fid d) = endpoints_tbl w"
  "contexts_tbl (resolve w fid d) = contexts_tbl w"
  "clock (resolve w fid d) = clock w"
  "calls (resolve w fid d) = calls w"
  "snackbars (resolve w fid d) = snackbars w"
  "uncaught (resolve w fid d) = uncaught w"
  "length (sessions (resolve w fid d)) = length (sessions w)"
  "inflight (resolve w fid d) = filter (\<lambda>p. fst p \<noteq> fid) (inflight w)"
  by (simp_all add: resolve_def dispatch_def settle_def filter_not_pending split: option.splits)

lemma reject_simps [simp]:
  "endpoints_tbl (reject w fid e) = endpoints_tbl w"
  "contexts_tbl (reject w fid e) = contexts_tbl w"
  "clock (reject w fid e) = clock w"
  "calls (reject w fid e) = calls w"
  "sessions (reject w fid e) = sessions w"
  "uncaught (reject w fid e) = uncaught w"
  "inflight (reject w fid e) = filter (\<lambda>p. fst p \<noteq> fid) (inflight w)"
  by (simp_all add: reject_def enqueueSnackbar_def settle_def filter_not_pending split: option.splits)

section \<open>The timer keeps its period\<close>

lemma period_next: "0 < p \<Longrightarrow> d < p * Suc (d div p)" for p d :: nat
  using dividend_less_times_div [of p d] by simp

lemma period_hit:
  fixes p d :: nat
  assumes "0 < p" "p * Suc (d div p) \<le> Suc d"
  shows "Suc d div p = Suc (d div p)" and "Suc d = p * Suc (d div p)"
proof -
  from period_next [OF assms(1), of d] assms(2)
  show eq: "Suc d = p * Suc (d div p)" by simp
  have "(p * Suc (d div p)) div p = Suc (d div p)"
    using assms(1) by simp
  with eq show "Suc d div p = Suc (d div p)" by simp
qed

lemma period_miss:
  fixes p d :: nat
  assumes "Suc d < p * Suc (d div p)"
  shows "Suc d div p = d div p"
proof (rule div_nat_eqI)
  have "p * (d div p) \<le> d" by simp
  then show "p * (d div p) \<le> Suc d" by (rule le_SucI)
  show "Suc d < p * Suc (d div p)" by (rule assms)
qed

lemma polling_frame:
  assumes "polling sid t0 k f c w"
    and "length (sessions w') = length (sessions w)"
    and "sessions w' ! sid = sessions w ! sid"
    and "calls_of sid w' = calls_of sid w"
    and "endpoints_tbl w' = endpoints_tbl w"
  shows "polling sid t0 k f c w'"
  using assms by (simp add: polling_def)

lemma polling_fire_other:
  "j \<noteq> sid \<Longrightarrow> polling sid t0 k f c w \<Longrightarrow> polling sid t0 k f c (fire_due j w)"
  by (simp add: polling_def fire_due_nth_other fire_due_calls_other)

lemma polling_fold_other:
  "sid \<notin> set js \<Longrightarrow> polling sid t0 k f c w \<Longrightarrow> polling sid t0 k f c (fold fire_due js w)"
  by (induction js arbitrary: w) (simp_all add: polling_fire_other)

lemma fold_fire_due_simps [simp]:
  "clock (fold fire_due js w) = clock w"
  "endpoints_tbl (fold fire_due js w) = endpoints_tbl w"
  "contexts_tbl (fold fire_due js w) = contexts_tbl w"
  "snackbars (fold fire_due js w) = snackbars w"
  "length (sessions (fold fire_due js w)) = length (sessions w)"
  by (induction js arbitrary: w) simp_all

lemma tick_ms_simps [simp]:
  "clock (tick_ms w) = Suc (clock w)"
  "endpoints_tbl (tick_ms w) = endpoints_tbl w"
  "contexts_tbl (tick_ms w) = contexts_tbl w"
  "snackbars (tick_ms w) = snackbars w"
  "length (sessions (tick_ms w)) = length (sessions w)"
  by (simp_all add: tick_ms_def)

lemma elapse_Suc: "elapse (Suc n) w = tick_ms (elapse n w)"
  by (simp add: elapse_def)

lemma elapse_0 [simp]: "elapse 0 w = w"
  by (simp add: elapse_def)

lemma elapse_simps [simp]:
  "clock (elapse n w) = clock w + n"
  "endpoints_tbl (elapse n w) = endpoints_tbl w"
  "contexts_tbl (elapse n w) = contexts_tbl w"
  "snackbars (elapse n w) = snackbars w"
  "length (sessions (elapse n w)) = length (sessions w)"
  by (induction n) (simp_all add: elapse_Suc)

lemma polling_fire_self:
  assumes "polling sid t0 k f c w" and "clock w = Suc c"
  shows "polling sid t0 k f (Suc c) (fire_due sid w)"
proof -
  let ?q = "(c - t0) div 1000"
  let ?due = "t0 + 1000 * Suc ?q"
  from assms(1) have sid: "sid < length (sessions w)" and t0: "t0 \<le> c"
    and tbl: "map_of (endpoints_tbl w) k = Some f"
    and ep: "effect_endpoint (sessions w ! sid) = k"
    and m: "mounted (sessions w ! sid)"
    and due: "interval (sessions w ! sid) = Some ?due"
    and cs: "calls_of sid w =
       map (\<lambda>j. \<lparr>at_ms = t0 + 1000 * j, by_session = sid, key = k, fn = f\<rparr>) [0..<Suc ?q]"
    by (simp_all add: polling_def)
  have sd: "Suc c - t0 = Suc (c - t0)" using t0 by simp
  show ?thesis
  proof (cases "?due \<le> Suc c")
    case True
    then have "1000 * Suc ?q \<le> Suc (c - t0)" using t0 by simp
    from period_hit [OF _ this]
    have q': "Suc (c - t0) div 1000 = Suc ?q" and now: "Suc (c - t0) = 1000 * Suc ?q" by simp_all
    from now t0 have now': "Suc c = ?due" by simp
    have fired: "fire_due sid w =
        interval_callback (update_session sid (\<lambda>s. s\<lparr>interval := Some (?due + 1000)\<rparr>) w) sid"
      using sid due True assms(2) by (simp add: fire_due_def)
    show ?thesis
      unfolding polling_def fired
      using sid t0 tbl ep m cs assms(2) now'
      by (simp add: sd q' update_session_nth calls_of_def calls_interval_callback)
  next
    case False
    then have "Suc (c - t0) < 1000 * Suc ?q" using t0 by simp
    from period_miss [OF this] have q': "Suc (c - t0) div 1000 = ?q" .
    have "fire_due sid w = w"
      using sid due False assms(2) by (simp add: fire_due_def)
    then show ?thesis
      using assms(1) t0 by (simp add: polling_def sd q')
  qed
qed

lemma polling_tick:
  assumes "polling sid t0 k f (clock w) w"
  shows "polling sid t0 k f (Suc (clock w)) (tick_ms w)"
proof -
  let ?n = "length (sessions w)"
  let ?w1 = "w\<lparr>clock := Suc (clock w)\<rparr>"
  from assms have sid: "sid < ?n" by (simp add: polling_def)
  then have upt: "[0..<?n] = [0..<sid] @ sid # [Suc sid..<?n]"
    by (metis le_add1 less_imp_add_positive upt_add_eq_append upt_conv_Cons plus_nat.add_0)
  have "polling sid t0 k f (clock w) ?w1"
    using assms by (rule polling_frame) simp_all
  then have "polling sid t0 k f (clock w) (fold fire_due [0..<sid] ?w1)"
    by (intro polling_fold_other) simp_all
  then have "polling sid t0 k f (Suc (clock w)) (fire_due sid (fold fire_due [0..<sid] ?w1))"
    by (rule polling_fire_self) simp
  then have "polling sid t0 k f (Suc (clock w))
      (fold fire_due [Suc sid..<?n] (fire_due sid (fold fire_due [0..<sid] ?w1)))"
    by (intro polling_fold_other) simp_all
  then show ?thesis
    by (simp add: tick_ms_def upt [simplified])
qed

lemma polling_elapse:
  "polling sid t0 k f (clock w) w \<Longrightarrow> polling sid t0 k f (clock w + n) (elapse n w)"
proof (induction n)
  case 0
  then show ?case by (simp add: elapse_def)
next
  case (Suc n)
  then have "polling sid t0 k f (clock (elapse n w)) (elapse n w)" by simp
  then have "polling sid t0 k f (Suc (clock (elapse n w))) (tick_ms (elapse n w))"
    by (rule polling_tick)
  moreover have "elapse (Suc n) w = tick_ms (elapse n w)"
    by (simp add: elapse_def)
  ultimately show ?case by simp
qed

lemma resolve_nth:
  "j < length (sessions w) \<Longrightarrow>
   sessions (resolve w fid d) ! j =
     (if map_of (inflight w) fid = Some j then (sessions w ! j)\<lparr>state := d\<rparr> else sessions w ! j)"
  by (simp add: resolve_def dispatch_def settle_def reducer_def update_session_def
      split: option.splits)

lemma rerender_simps [simp]:
  "endpoints_tbl (rerender w sid k) = endpoints_tbl w"
  "contexts_tbl (rerender w sid k) = contexts_tbl w"
  "clock (rerender w sid k) = clock w"
  "calls (rerender w sid k) = calls w"
  "inflight (rerender w sid k) = inflight w"
  "snackbars (rerender w sid k) = snackbars w"
  "uncaught (rerender w sid k) = uncaught w"
  "length (sessions (rerender w sid k)) = length (sessions w)"
  by (simp_all add: rerender_def)

lemma rerender_nth:
  "j < length (sessions w) \<Longrightarrow>
   sessions (rerender w sid k) ! j =
     (if j = sid \<and> mounted (sessions w ! j)
      then (sessions w ! j)\<lparr>props_endpoint := k\<rparr> else sessions w ! j)"
  by (simp add: rerender_def update_session_nth)

lemma cleanup_simps [simp]:
  "endpoints_tbl (cleanup w sid) = endpoints_tbl w"
  "contexts_tbl (cleanup w sid) = contexts_tbl w"
  "clock (cleanup w sid) = clock w"
  "calls (cleanup w sid) = calls w"
  "inflight (cleanup w sid) = inflight w"
  "snackbars (cleanup w sid) = snackbars w"
  "uncaught (cleanup w sid) = uncaught w"
  "length (sessions (cleanup w sid)) = length (sessions w)"
  by (simp_all add: cleanup_def clearInterval_def)

lemma cleanup_nth:
  "j < length (sessions w) \<Longrightarrow>
   sessions (cleanup w sid) ! j =
     (if j = sid then (sessions w ! j)\<lparr>interval := None\<rparr> else sessions w ! j)"
  by (simp add: cleanup_def clearInterval_def update_session_nth)

lemma unmount_simps [simp]:
  "endpoints_tbl (unmount w sid) = endpoints_tbl w"
  "contexts_tbl (unmount w sid) = contexts_tbl w"
  "clock (unmount w sid) = clock w"
  "calls (unmount w sid) = calls w"
  "inflight (unmount w sid) = inflight w"
  "snackbars (unmount w sid) = snackbars w"
  "uncaught (unmount w sid) = uncaught w"
  "length (sessions (unmount w sid)) = length (sessions w)"
  by (simp_all add: unmount_def)

lemma unmount_nth:
  "j < length (sessions w) \<Longrightarrow>
   sessions (unmount w sid) ! j =
     (if j = sid then (sessions w ! j)\<lparr>interval := None, mounted := False\<rparr> else sessions w ! j)"
  by (simp add: unmount_def update_session_nth cleanup_nth)

lemma calls_of_events [simp]:
  "calls_of j (rerender w sid k) = calls_of j w"
  "calls_of j (cleanup w sid) = calls_of j w"
  "calls_of j (unmount w sid) = calls_of j w"
  "calls_of j (resolve w fid d) = calls_of j w"
  "calls_of j (reject w fid e) = calls_of j w"
  by (simp_all add: calls_of_def)

lemma calls_of_ClientDataProvider:
  "j \<noteq> length (sessions w) \<Longrightarrow> calls_of j (ClientDataProvider w k) = calls_of j w"
  by (simp add: calls_of_def calls_ClientDataProvider split: option.splits)

lemma polling_mount:
  assumes "map_of (endpoints_tbl w) k = Some f" and "calls_of (length (sessions w)) w = []"
  shows "polling (length (sessions w)) (clock w) k f (clock w) (ClientDataProvider w k)"
  using assms
  by (simp add: polling_def sessions_ClientDataProvider calls_ClientDataProvider calls_of_def)

lemma polling_step:
  assumes "polling sid t0 k f (clock w) w" and "ev \<noteq> Unmount sid"
  shows "polling sid t0 k f (clock (step w ev)) (step w ev)"
proof (cases ev)
  case (Mount k')
  with assms(1) show ?thesis
    by (simp add: polling_def sessions_ClientDataProvider nth_append calls_of_ClientDataProvider)
next
  case (Rerender j k')
  with assms(1) show ?thesis
    by (auto simp: polling_def rerender_nth)
next
  case (Unmount j)
  with assms show ?thesis
    by (auto simp: polling_def unmount_nth)
next
  case (Elapse n)
  with assms(1) show ?thesis
    by (simp add: polling_elapse)
next
  case (Resolve fid d)
  with assms(1) show ?thesis
    by (auto simp: polling_def resolve_nth)
next
  case (Reject fid e)
  with assms(1) show ?thesis
    by (simp add: polling_def)
qed

lemma run_Nil [simp]: "run w [] = w"
  by (simp add: run_def)

lemma run_Cons [simp]: "run w (ev # evs) = run (step w ev) evs"
  by (simp add: run_def)

lemma run_append: "run w (evs @ evs') = run (run w evs) evs'"
  by (simp add: run_def)

lemma polling_run:
  "polling sid t0 k f (clock w) w \<Longrightarrow> Unmount sid \<notin> set evs \<Longrightarrow>
   polling sid t0 k f (clock (run w evs)) (run w evs)"
proof (induction evs arbitrary: w)
  case Nil
  then show ?case by simp
next
  case (Cons ev evs)
  from Cons.prems have "polling sid t0 k f (clock (step w ev)) (step w ev)"
    by (intro polling_step) auto
  with Cons show ?case by simp
qed

text \<open>The three invariants hold in every world the module can reach.\<close>

lemma run_preserves:
  fixes evs :: "('a, 'e) event list"
  assumes "\<And>w (ev :: ('a, 'e) event). P w \<Longrightarrow> P (step w ev)"
  shows "P w \<Longrightarrow> P (run w evs)"
proof (induction evs arbitrary: w)
  case Nil
  then show ?case by simp
next
  case (Cons ev evs)
  from Cons.prems have "P (step w ev)" by (rule assms)
  then have "P (run (step w ev) evs)" by (rule Cons.IH)
  then show ?case by simp
qed

lemma tables_ok_step: "tables_ok w \<Longrightarrow> tables_ok (step w ev)"
  by (cases ev) (simp_all add: tables_ok_def)

lemma tables_ok_run: "tables_ok w \<Longrightarrow> tables_ok (run w evs)"
  by (induction evs arbitrary: w) (simp_all add: tables_ok_step)

lemma tables_ok_module_load: "tables_ok module_load"
  by (simp add: tables_ok_def module_load_def)

lemma map_of_clientEndpoints:
  "map_of clientEndpoints k =
     Some (case k of sweeps \<Rightarrow> showSweepsCommandShowSweepsPost
                   | notebooks \<Rightarrow> showNotebooksCommandShowNotebooksPost
                   | tensorboards \<Rightarrow> showTensorboardsCommandShowTensorboardsPost)"
  by (cases k) (simp_all add: clientEndpoints_def)

lemma map_of_clientDataContexts:
  "map_of clientDataContexts k =
     Some (case k of sweeps \<Rightarrow> createContext 0 []
                   | notebooks \<Rightarrow> createContext 1 []
                   | tensorboards \<Rightarrow> createContext 2 [])"
  by (cases k) (simp_all add: clientDataContexts_def)

section \<open>A cleared timer stays cleared\<close>

lemma stopped_fire_due:
  assumes "sid < length (sessions w)" and "interval (sessions w ! sid) = None"
  shows "sid < length (sessions (fire_due j w)) \<and> interval (sessions (fire_due j w) ! sid) = None \<and>
         calls_of sid (fire_due j w) = calls_of sid w"
proof (cases "j = sid")
  case True
  with assms show ?thesis by (simp add: fire_due_idle)
next
  case False
  with assms show ?thesis by (simp add: fire_due_nth_other fire_due_calls_other)
qed

lemma stopped_elapse:
  assumes "sid < length (sessions w)" and "interval (sessions w ! sid) = None"
  shows "sid < length (sessions (elapse n w)) \<and> interval (sessions (elapse n w) ! sid) = None \<and>
         calls_of sid (elapse n w) = calls_of sid w"
proof -
  let ?P = "\<lambda>w'. sid < length (sessions w') \<and> interval (sessions w' ! sid) = None \<and>
                  calls_of sid w' = calls_of sid w"
  have "?P (elapse n w)"
  proof (rule elapse_preserves [where P = ?P])
    show "?P w" using assms by simp
  next
    fix j w' assume "?P w'"
    with stopped_fire_due [of sid w' j] show "?P (fire_due j w')" by simp
  next
    fix w' assume "?P w'"
    then show "?P (w'\<lparr>clock := Suc (clock w')\<rparr>)" by simp
  qed
  then show ?thesis .
qed

lemma stopped_step:
  assumes "sid < length (sessions w)" and "interval (sessions w ! sid) = None"
  shows "sid < length (sessions (step w ev)) \<and> interval (sessions (step w ev) ! sid) = None \<and>
         calls_of sid (step w ev) = calls_of sid w"
proof (cases ev)
  case (Mount k)
  with assms show ?thesis
    by (simp add: sessions_ClientDataProvider nth_append calls_of_ClientDataProvider)
next
  case (Rerender j k)
  with assms show ?thesis by (auto simp: rerender_nth)
next
  case (Unmount j)
  with assms show ?thesis by (auto simp: unmount_nth)
next
  case (Elapse n)
  with assms show ?thesis by (simp add: stopped_elapse)
next
  case (Resolve fid d)
  with assms show ?thesis by (auto simp: resolve_nth)
next
  case (Reject fid e)
  with assms show ?thesis by simp
qed

lemma stopped_run:
  "sid < length (sessions w) \<Longrightarrow> interval (sessions w ! sid) = None \<Longrightarrow>
   sid < length (sessions (run w evs)) \<and> interval (sessions (run w evs) ! sid) = None \<and>
   calls_of sid (run w evs) = calls_of sid w"
proof (induction evs arbitrary: w)
  case Nil
  then show ?case by simp
next
  case (Cons ev evs)
  from stopped_step [OF Cons.prems, of ev] Cons.IH [of "step w ev"]
  show ?case by simp
qed

section \<open>What every reachable world satisfies\<close>

lemma calls_fire_due:
  "calls (fire_due j w) = calls w \<or>
   (j < length (sessions w) \<and>
    (\<exists>f. calls (fire_due j w) =
           calls w @ [\<lparr>at_ms = clock w, by_session = j,
                        key = effect_endpoint (sessions w ! j), fn = f\<rparr>]))"
  by (simp add: fire_due_def calls_interval_callback update_session_nth split: option.splits)

lemma inflight_interval_callback:
  "inflight (interval_callback w sid) =
     inflight w @ (case map_of (endpoints_tbl w) (effect_endpoint (sessions w ! sid)) of
                     None \<Rightarrow> [] | Some f \<Rightarrow> [(length (calls w), sid)])"
  by (auto simp: interval_callback_def post_def split: option.splits)

lemma inflight_fire_due:
  "\<exists>cs ps. calls (fire_due j w) = calls w @ cs \<and> inflight (fire_due j w) = inflight w @ ps \<and>
     (\<forall>p \<in> set ps. fst p < length (calls (fire_due j w)) \<and> snd p < length (sessions w) \<and>
                     by_session (calls (fire_due j w) ! fst p) = snd p)"
proof (cases "calls (fire_due j w) = calls w \<and> inflight (fire_due j w) = inflight w")
  case True
  then have "calls (fire_due j w) = calls w @ [] \<and> inflight (fire_due j w) = inflight w @ [] \<and>
     (\<forall>p \<in> set []. fst p < length (calls (fire_due j w)) \<and> snd p < length (sessions w) \<and>
                     by_session (calls (fire_due j w) ! fst p) = snd p)"
    by simp
  then show ?thesis by blast
next
  case False
  then obtain c where "j < length (sessions w)" and "calls (fire_due j w) = calls w @ [c]"
    and "by_session c = j" and "inflight (fire_due j w) = inflight w @ [(length (calls w), j)]"
    by (auto simp: fire_due_def calls_interval_callback inflight_interval_callback
        split: option.splits if_splits)
  then have "calls (fire_due j w) = calls w @ [c] \<and>
     inflight (fire_due j w) = inflight w @ [(length (calls w), j)] \<and>
     (\<forall>p \<in> set [(length (calls w), j)].
         fst p < length (calls (fire_due j w)) \<and> snd p < length (sessions w) \<and>
         by_session (calls (fire_due j w) ! fst p) = snd p)"
    by simp
  then show ?thesis by blast
qed

lemma inflight_ok_frame:
  assumes "inflight_ok w"
    and "length (sessions w) \<le> length (sessions w')"
    and "calls w' = calls w @ cs"
    and "set (inflight w') \<subseteq> set (inflight w) \<union> set ps"
    and "\<forall>p \<in> set ps. fst p < length (calls w') \<and> snd p < length (sessions w') \<and>
                        by_session (calls w' ! fst p) = snd p"
  shows "inflight_ok w'"
proof -
  have "fst p < length (calls w') \<and> snd p < length (sessions w') \<and>
        by_session (calls w' ! fst p) = snd p" if "p \<in> set (inflight w')" for p
  proof (cases "p \<in> set ps")
    case True
    with assms(5) show ?thesis by blast
  next
    case False
    with that assms(4) have "p \<in> set (inflight w)" by blast
    with assms(1) have "fst p < length (calls w)" and "snd p < length (sessions w)"
      and "by_session (calls w ! fst p) = snd p"
      by (simp_all add: inflight_ok_def list_all_iff)
    with assms(2,3) show ?thesis by (simp add: nth_append)
  qed
  then show ?thesis by (simp add: inflight_ok_def list_all_iff)
qed

lemma calls_ok_frame:
  assumes "calls_ok w"
    and "length (sessions w) \<le> length (sessions w')"
    and "\<And>j. j < length (sessions w) \<Longrightarrow>
           effect_endpoint (sessions w' ! j) = effect_endpoint (sessions w ! j)"
    and "calls w' = calls w"
  shows "calls_ok w'"
  using assms by (auto simp: calls_ok_def list_all_iff)

lemma calls_ok_fire_due: "calls_ok w \<Longrightarrow> calls_ok (fire_due j w)"
  using calls_fire_due [of j w]
  by (auto simp: calls_ok_def list_all_iff fire_due_session)

lemma calls_ok_step: "calls_ok w \<Longrightarrow> calls_ok (step w ev)"
proof (cases ev)
  case (Mount k)
  assume "calls_ok w"
  then show ?thesis
    unfolding Mount
    by (auto simp: calls_ok_def list_all_iff sessions_ClientDataProvider calls_ClientDataProvider
        nth_append split: option.splits)
next
  case (Rerender j k)
  assume "calls_ok w"
  then show ?thesis unfolding Rerender step.simps
    by (rule calls_ok_frame) (simp_all add: rerender_nth)
next
  case (Unmount j)
  assume "calls_ok w"
  then show ?thesis unfolding Unmount step.simps
    by (rule calls_ok_frame) (simp_all add: unmount_nth)
next
  case (Elapse n)
  assume "calls_ok w"
  then have "calls_ok (elapse n w)"
  proof (rule elapse_preserves [where P = calls_ok, rotated 2])
    show "\<And>j w. calls_ok w \<Longrightarrow> calls_ok (fire_due j w)" by (rule calls_ok_fire_due)
    show "\<And>w. calls_ok w \<Longrightarrow> calls_ok (w\<lparr>clock := Suc (clock w)\<rparr>)"
      by (simp add: calls_ok_def)
  qed
  then show ?thesis by (simp add: Elapse)
next
  case (Resolve fid d)
  assume "calls_ok w"
  then show ?thesis unfolding Resolve step.simps
    by (rule calls_ok_frame) (simp_all add: resolve_nth)
next
  case (Reject fid e)
  assume "calls_ok w"
  then show ?thesis unfolding Reject step.simps
    by (rule calls_ok_frame) simp_all
qed

lemma inflight_ok_fire_due:
  assumes "inflight_ok w"
  shows "inflight_ok (fire_due j w)"
proof -
  from inflight_fire_due [of j w] obtain cs ps
    where new: "calls (fire_due j w) = calls w @ cs" "inflight (fire_due j w) = inflight w @ ps"
      "\<forall>p \<in> set ps. fst p < length (calls (fire_due j w)) \<and>
             snd p < length (sessions (fire_due j w)) \<and>
             by_session (calls (fire_due j w) ! fst p) = snd p"
    by auto
  show ?thesis
    by (rule inflight_ok_frame [OF assms, where cs = cs and ps = ps]) (use new in simp_all)
qed

lemma inflight_ok_step:
  assumes "inflight_ok w"
  shows "inflight_ok (step w ev)"
proof (cases ev)
  case (Mount k)
  show ?thesis
  proof (cases "map_of (endpoints_tbl w) k")
    case None
    then show ?thesis
      unfolding Mount step.simps
      by (intro inflight_ok_frame [OF assms, where cs = "[]" and ps = "[]"])
         (simp_all add: sessions_ClientDataProvider calls_ClientDataProvider
            inflight_ClientDataProvider)
  next
    case (Some f)
    then show ?thesis
      unfolding Mount step.simps
      by (intro inflight_ok_frame
            [OF assms, where ps = "[(length (calls w), length (sessions w))]"
               and cs = "[\<lparr>at_ms = clock w, by_session = length (sessions w), key = k, fn = f\<rparr>]"])
         (simp_all add: sessions_ClientDataProvider calls_ClientDataProvider
            inflight_ClientDataProvider)
  qed
next
  case (Rerender j k)
  with assms show ?thesis by (simp add: inflight_ok_def)
next
  case (Unmount j)
  with assms show ?thesis by (simp add: inflight_ok_def)
next
  case (Elapse n)
  from assms have "inflight_ok (elapse n w)"
  proof (rule elapse_preserves [where P = inflight_ok, rotated 2])
    show "\<And>j w. inflight_ok w \<Longrightarrow> inflight_ok (fire_due j w)" by (rule inflight_ok_fire_due)
    show "\<And>w. inflight_ok w \<Longrightarrow> inflight_ok (w\<lparr>clock := Suc (clock w)\<rparr>)"
      by (simp add: inflight_ok_def)
  qed
  then show ?thesis by (simp add: Elapse)
next
  case (Resolve fid d)
  from assms show ?thesis
    unfolding Resolve step.simps
    by (rule inflight_ok_frame [where cs = "[]" and ps = "[]"]) simp_all
next
  case (Reject fid e)
  from assms show ?thesis
    unfolding Reject step.simps
    by (rule inflight_ok_frame [where cs = "[]" and ps = "[]"]) simp_all
qed

lemma reachable_ok:
  "tables_ok (run module_load evs) \<and> calls_ok (run module_load evs) \<and>
   inflight_ok (run module_load evs)"
proof -
  have "calls_ok module_load"
    by (simp add: calls_ok_def module_load_def)
  then have c: "calls_ok (run module_load evs)"
    using calls_ok_step by (rule run_preserves [where P = calls_ok, rotated])
  have "inflight_ok module_load"
    by (simp add: inflight_ok_def module_load_def)
  then have "inflight_ok (run module_load evs)"
    using inflight_ok_step by (rule run_preserves [where P = inflight_ok, rotated])
  with c show ?thesis
    by (simp add: tables_ok_run tables_ok_module_load)
qed

lemma calls_ok_fresh: "calls_ok w \<Longrightarrow> calls_of (length (sessions w)) w = []"
  by (auto simp: calls_ok_def calls_of_def list_all_iff filter_empty_conv)




section \<open>Reading\<close>

lemma useContext_all_empty:
  "defaultValue c = [] \<Longrightarrow> list_all (\<lambda>p. snd p = []) ps \<Longrightarrow> useContext c ps = []"
  by (induction ps) auto

lemma providers_Nil [simp]: "providers w [] = []"
  by (simp add: providers_def List.map_filter_simps)

lemma providers_Cons:
  "providers w (sid # encl) =
     (if sid < length (sessions w) \<and> mounted (sessions w ! sid)
      then (case render w (sessions w ! sid) of
              None \<Rightarrow> providers w encl
            | Some p \<Rightarrow> p # providers w encl)
      else providers w encl)"
  by (simp add: providers_def List.map_filter_simps split: option.splits)

lemma all_empty_nth:
  "all_empty w \<longleftrightarrow> (\<forall>j < length (sessions w). state (sessions w ! j) = [])"
  by (simp add: all_empty_def list_all_length)

lemma render_frame: "contexts_tbl w' = contexts_tbl w \<Longrightarrow> render w' s = render w s"
  by (simp add: render_def)

lemma providers_frame:
  assumes "sessions w' = sessions w" and "contexts_tbl w' = contexts_tbl w"
  shows "providers w' encl = providers w encl"
proof (induction encl)
  case Nil
  show ?case by simp
next
  case (Cons sid encl)
  have "render w' (sessions w ! sid) = render w (sessions w ! sid)"
    using assms(2) by (rule render_frame)
  with Cons show ?case by (simp add: providers_Cons assms(1) split: option.splits)
qed

lemma useClientDataState_frame:
  assumes "sessions w' = sessions w" and "contexts_tbl w' = contexts_tbl w"
  shows "useClientDataState w' encl k = useClientDataState w encl k"
  unfolding useClientDataState_def providers_frame [OF assms] assms(2) by (rule refl)

lemma providers_all_empty:
  "all_empty w \<Longrightarrow> list_all (\<lambda>p. snd p = []) (providers w encl)"
  by (induction encl)
     (simp_all add: providers_Cons all_empty_nth render_def split: option.splits)



lemma defaultValue_clientDataContexts:
  "map_of clientDataContexts k = Some c \<Longrightarrow> defaultValue c = []"
  by (cases k) (auto simp: clientDataContexts_def createContext_def)

lemma useClientDataState_all_empty:
  assumes "tables_ok w" and "all_empty w"
  shows "useClientDataState w encl k = Some []"
proof -
  obtain c where c: "map_of (contexts_tbl w) k = Some c"
    using assms(1) by (simp add: tables_ok_def map_of_clientDataContexts)
  with assms(1) have "defaultValue c = []"
    by (simp add: tables_ok_def defaultValue_clientDataContexts)
  with providers_all_empty [OF assms(2)] have "useContext c (providers w encl) = []"
    by (simp add: useContext_all_empty)
  with c show ?thesis by (simp add: useClientDataState_def)
qed

lemma all_empty_fire_due: "all_empty w \<Longrightarrow> all_empty (fire_due j w)"
  by (simp add: all_empty_nth fire_due_session)

lemma all_empty_elapse: "all_empty w \<Longrightarrow> all_empty (elapse n w)"
proof (rule elapse_preserves [where P = all_empty])
  show "\<And>j w. all_empty w \<Longrightarrow> all_empty (fire_due j w)" by (rule all_empty_fire_due)
  show "\<And>w. all_empty w \<Longrightarrow> all_empty (w\<lparr>clock := Suc (clock w)\<rparr>)"
    by (simp add: all_empty_def)
qed

lemma all_empty_step:
  assumes "all_empty w" and "\<And>fid d. ev \<noteq> Resolve fid d"
  shows "all_empty (step w ev)"
proof (cases ev)
  case (Mount k)
  with assms(1) show ?thesis
    by (simp add: all_empty_def sessions_ClientDataProvider)
next
  case (Rerender j k)
  with assms(1) show ?thesis by (simp add: all_empty_nth rerender_nth)
next
  case (Unmount j)
  with assms(1) show ?thesis by (simp add: all_empty_nth unmount_nth)
next
  case (Elapse n)
  with assms(1) show ?thesis by (simp add: all_empty_elapse)
next
  case (Resolve fid d)
  with assms(2) [of fid d] show ?thesis by simp
next
  case (Reject fid e)
  with assms(1) show ?thesis by (simp add: all_empty_def)
qed

lemma all_empty_run:
  "all_empty w \<Longrightarrow> \<forall>fid d. Resolve fid d \<notin> set evs \<Longrightarrow> all_empty (run w evs)"
proof (induction evs arbitrary: w)
  case Nil
  then show ?case by simp
next
  case (Cons ev evs)
  from Cons.prems have "all_empty (step w ev)"
    by (intro all_empty_step) auto
  with Cons show ?case by simp
qed



section \<open>Idle time\<close>

lemma fold_fire_due_idle:
  "\<forall>j \<in> set js. fire_due j w = w \<Longrightarrow> fold fire_due js w = w"
  by (induction js) simp_all

lemma tick_ms_idle:
  assumes "\<forall>s \<in> set (sessions w). \<forall>due. interval s = Some due \<longrightarrow> Suc (clock w) < due"
  shows "tick_ms w = w\<lparr>clock := Suc (clock w)\<rparr>"
proof -
  have "fire_due j (w\<lparr>clock := Suc (clock w)\<rparr>) = w\<lparr>clock := Suc (clock w)\<rparr>" for j
  proof (cases "j < length (sessions w)")
    case True
    then have "sessions w ! j \<in> set (sessions w)" by simp
    with assms have "\<forall>due. interval (sessions w ! j) = Some due \<longrightarrow> Suc (clock w) < due"
      by blast
    with True show ?thesis
      by (cases "interval (sessions w ! j)") (simp_all add: fire_due_def)
  next
    case False
    then show ?thesis by (simp add: fire_due_def)
  qed
  then show ?thesis
    by (simp add: tick_ms_def fold_fire_due_idle)
qed

lemma elapse_idle:
  "\<forall>s \<in> set (sessions w). \<forall>due. interval s = Some due \<longrightarrow> clock w + n < due
   \<Longrightarrow> elapse n w = w\<lparr>clock := clock w + n\<rparr>"
proof (induction n)
  case 0
  show ?case by simp
next
  case (Suc n)
  then have "elapse n w = w\<lparr>clock := clock w + n\<rparr>" by force
  then have "elapse (Suc n) w = tick_ms (w\<lparr>clock := clock w + n\<rparr>)"
    by (simp add: elapse_Suc)
  also have "\<dots> = w\<lparr>clock := Suc (clock w + n)\<rparr>"
    using tick_ms_idle [of "w\<lparr>clock := clock w + n\<rparr>"] Suc.prems by simp
  finally show ?case by simp
qed

section \<open>The claims\<close>

text \<open>
  C1. Mounting a provider for any key \<open>K\<close>, in any world the module can reach, sends exactly
  one request for \<open>K\<close> at once, without the clock moving; and as long as it has not been
  unmounted, which is when its cleanup runs, the requests it has sent are exactly those at
  the mount time and at every multiple of 1000 ms after it that the clock has reached.
\<close>
theorem start_fetches_once_then_every_second:
  assumes "w = run module_load evs" and "sid = length (sessions w)"
    and "w' = run (ClientDataProvider w K) evs'" and "Unmount sid \<notin> set evs'"
  shows "\<exists>f. map_of clientEndpoints K = Some f \<and>
           calls (ClientDataProvider w K) =
             calls w @ [\<lparr>at_ms = clock w, by_session = sid, key = K, fn = f\<rparr>] \<and>
           clock (ClientDataProvider w K) = clock w \<and>
           calls_of sid w' =
             map (\<lambda>j. \<lparr>at_ms = clock w + 1000 * j, by_session = sid, key = K, fn = f\<rparr>)
                 [0..<Suc ((clock w' - clock w) div 1000)]"
proof -
  from assms(1) have ok: "tables_ok w" "calls_ok w" by (simp_all add: reachable_ok)
  obtain f where f: "map_of clientEndpoints K = Some f"
    by (simp add: map_of_clientEndpoints)
  with ok have tbl: "map_of (endpoints_tbl w) K = Some f" by (simp add: tables_ok_def)
  from ok have "calls_of (length (sessions w)) w = []" by (simp add: calls_ok_fresh)
  with tbl have "polling sid (clock w) K f (clock (ClientDataProvider w K)) (ClientDataProvider w K)"
    unfolding assms(2) by (simp add: polling_mount)
  from polling_run [OF this assms(4)] have "polling sid (clock w) K f (clock w') w'"
    by (simp add: assms(3))
  then have "calls_of sid w' =
      map (\<lambda>j. \<lparr>at_ms = clock w + 1000 * j, by_session = sid, key = K, fn = f\<rparr>)
          [0..<Suc ((clock w' - clock w) div 1000)]"
    by (simp add: polling_def)
  with f tbl show ?thesis
    by (simp add: calls_ClientDataProvider assms(2))
qed

theorem start_fetches_once_then_every_second_witness:
  "Unmount 0 \<notin> set [Elapse 999, Rerender 0 notebooks, Elapse 1501 :: (nat, unit) event] \<and>
   calls (ClientDataProvider (module_load :: nat world) sweeps) =
     [\<lparr>at_ms = 0, by_session = 0, key = sweeps, fn = showSweepsCommandShowSweepsPost\<rparr>] \<and>
   calls_of 0 (run (ClientDataProvider (module_load :: nat world) sweeps)
                   [Elapse 999, Rerender 0 notebooks, Elapse 1501 :: (nat, unit) event]) =
     [\<lparr>at_ms = 0, by_session = 0, key = sweeps, fn = showSweepsCommandShowSweepsPost\<rparr>,
      \<lparr>at_ms = 1000, by_session = 0, key = sweeps, fn = showSweepsCommandShowSweepsPost\<rparr>,
      \<lparr>at_ms = 2000, by_session = 0, key = sweeps, fn = showSweepsCommandShowSweepsPost\<rparr>]"
proof -
  have h: "Unmount 0 \<notin> set [Elapse 999, Rerender 0 notebooks, Elapse 1501 :: (nat, unit) event]"
    by simp
  have h': "Unmount (length (sessions (run (module_load :: nat world) ([] :: (nat, unit) event list))))
              \<notin> set [Elapse 999, Rerender 0 notebooks, Elapse 1501 :: (nat, unit) event]"
    by simp
  from start_fetches_once_then_every_second
         [where evs = "[] :: (nat, unit) event list" and K = sweeps, OF refl refl refl h'] h
  show ?thesis
    by (simp add: clientEndpoints_def module_load_def upt_rec)
qed



text \<open>
  C3. Once the cleanup function of a provider's effect has run (\<open>clearInterval\<close>), that
  provider sends no further request: whatever events follow, and however much time they
  let pass, the requests logged for it are the ones logged before.
\<close>
theorem no_fetch_after_cleanup:
  assumes "sid < length (sessions w)"
  shows "calls_of sid (run (cleanup w sid) evs) = calls_of sid w"
proof -
  from assms have "sid < length (sessions (cleanup w sid))"
    and "interval (sessions (cleanup w sid) ! sid) = None"
    by (simp_all add: cleanup_nth)
  from stopped_run [OF this, of evs] show ?thesis by simp
qed

theorem no_fetch_after_cleanup_witness:
  "0 < length (sessions (run (module_load :: nat world) [Mount sweeps :: (nat, unit) event])) \<and>
   calls_of 0 (run (cleanup (run (module_load :: nat world) [Mount sweeps :: (nat, unit) event]) 0)
                   [Elapse 5000, Rerender 0 notebooks, Elapse 5000 :: (nat, unit) event]) =
     [\<lparr>at_ms = 0, by_session = 0, key = sweeps, fn = showSweepsCommandShowSweepsPost\<rparr>]"
proof -
  have h: "0 < length (sessions (run (module_load :: nat world) [Mount sweeps :: (nat, unit) event]))"
    by (simp add: sessions_ClientDataProvider)
  from no_fetch_after_cleanup
         [OF h, of "[Elapse 5000, Rerender 0 notebooks, Elapse 5000 :: (nat, unit) event]"]
  show ?thesis
    by (simp add: sessions_ClientDataProvider calls_of_def calls_ClientDataProvider
        module_load_def clientEndpoints_def)
qed

text \<open>
  C4. When a pending fetch is rejected with any error value \<open>e\<close>: no provider's state
  changes, so every reader reads what it read before; exactly one snackbar is enqueued, the
  fixed one of severity \<open>error\<close>; nothing is thrown; and the resulting world is the same
  for every other error value \<open>e'\<close>, of whatever type.
\<close>
theorem rejected_fetch_keeps_snapshot:
  assumes "map_of (inflight w) fid = Some sid"
  shows "sessions (reject w fid e) = sessions w \<and>
         useClientDataState (reject w fid e) encl k = useClientDataState w encl k \<and>
         snackbars (reject w fid e) = snackbars w @ [fetch_failed] \<and>
         severity fetch_failed = ''error'' \<and>
         uncaught (reject w fid e) = uncaught w \<and>
         reject w fid e = reject w fid e'"
proof -
  have "useClientDataState (reject w fid e) encl k = useClientDataState w encl k"
    by (rule useClientDataState_frame) simp_all
  with assms show ?thesis
    by (simp add: reject_def enqueueSnackbar_def settle_def fetch_failed_def)
qed

theorem rejected_fetch_keeps_snapshot_witness:
  "map_of (inflight (run (module_load :: nat world) [Mount sweeps :: (nat, unit) event])) 0 = Some 0 \<and>
   sessions (reject (run (module_load :: nat world) [Mount sweeps :: (nat, unit) event]) 0 ()) =
     sessions (run (module_load :: nat world) [Mount sweeps :: (nat, unit) event]) \<and>
   snackbars (reject (run (module_load :: nat world) [Mount sweeps :: (nat, unit) event]) 0 ()) =
     [\<lparr>title = ''Error Fetching Data'', children = ''Try reloading the page'',
       severity = ''error''\<rparr>] \<and>
   reject (run (module_load :: nat world) [Mount sweeps :: (nat, unit) event]) 0 () =
     reject (run (module_load :: nat world) [Mount sweeps :: (nat, unit) event]) 0 True"
proof -
  have h: "map_of (inflight (run (module_load :: nat world) [Mount sweeps :: (nat, unit) event])) 0
             = Some 0"
    by (simp add: inflight_ClientDataProvider module_load_def clientEndpoints_def)
  from rejected_fetch_keeps_snapshot [OF h, where e = "()" and e' = True] h
  show ?thesis
    by (simp add: module_load_def fetch_failed_def reject_def enqueueSnackbar_def settle_def)
qed






text \<open>
  C7. For every key \<open>K\<close>: mount two providers for \<open>K\<close> right after the module is loaded.
  After 999 ms the log holds the two initial requests; after 1000 ms it holds exactly four
  requests for \<open>K\<close>, two by each provider, and each provider's own timer is armed for 2000.
\<close>
theorem two_sessions_four_fetches:
  "\<exists>f. map_of clientEndpoints K = Some f \<and>
     calls (run module_load [Mount K, Mount K, Elapse 999 :: ('a, 'e) event]) =
       [\<lparr>at_ms = 0, by_session = 0, key = K, fn = f\<rparr>,
        \<lparr>at_ms = 0, by_session = 1, key = K, fn = f\<rparr>] \<and>
     calls (run module_load [Mount K, Mount K, Elapse 1000 :: ('a, 'e) event]) =
       [\<lparr>at_ms = 0, by_session = 0, key = K, fn = f\<rparr>,
        \<lparr>at_ms = 0, by_session = 1, key = K, fn = f\<rparr>,
        \<lparr>at_ms = 1000, by_session = 0, key = K, fn = f\<rparr>,
        \<lparr>at_ms = 1000, by_session = 1, key = K, fn = f\<rparr>] \<and>
     length (filter (\<lambda>c. key c = K)
               (calls (run module_load [Mount K, Mount K, Elapse 1000 :: ('a, 'e) event]))) = 4 \<and>
     map interval (sessions (run module_load [Mount K, Mount K, Elapse 1000 :: ('a, 'e) event])) =
       [Some 2000, Some 2000]"
proof -
  obtain f where f: "map_of clientEndpoints K = Some f"
    by (simp add: map_of_clientEndpoints)
  let ?w2 = "ClientDataProvider (ClientDataProvider (module_load :: 'a world) K) K"
  have w2: "?w2 =
      \<lparr>endpoints_tbl = clientEndpoints, contexts_tbl = clientDataContexts, clock = 0,
       sessions = [\<lparr>props_endpoint = K, effect_endpoint = K, state = [], interval = Some 1000,
                    mounted = True\<rparr>,
                   \<lparr>props_endpoint = K, effect_endpoint = K, state = [], interval = Some 1000,
                    mounted = True\<rparr>],
       inflight = [(0, 0), (1, 1)],
       calls = [\<lparr>at_ms = 0, by_session = 0, key = K, fn = f\<rparr>,
                \<lparr>at_ms = 0, by_session = 1, key = K, fn = f\<rparr>],
       snackbars = [], uncaught = []\<rparr>"
    using f
    by (simp add: module_load_def ClientDataProvider_def effect_def post_def setInterval_def
        update_session_def)
  have idle: "elapse 999 ?w2 = ?w2\<lparr>clock := 999\<rparr>"
    using elapse_idle [of ?w2 999] by (simp add: w2)
  have "elapse 1000 ?w2 = tick_ms (elapse 999 ?w2)"
    using elapse_Suc [of 999 ?w2] by simp
  also have "\<dots> = tick_ms (?w2\<lparr>clock := 999\<rparr>)"
    by (simp only: idle)
  also have "\<dots> =
      \<lparr>endpoints_tbl = clientEndpoints, contexts_tbl = clientDataContexts, clock = 1000,
       sessions = [\<lparr>props_endpoint = K, effect_endpoint = K, state = [], interval = Some 2000,
                    mounted = True\<rparr>,
                   \<lparr>props_endpoint = K, effect_endpoint = K, state = [], interval = Some 2000,
                    mounted = True\<rparr>],
       inflight = [(0, 0), (1, 1), (2, 0), (3, 1)],
       calls = [\<lparr>at_ms = 0, by_session = 0, key = K, fn = f\<rparr>,
                \<lparr>at_ms = 0, by_session = 1, key = K, fn = f\<rparr>,
                \<lparr>at_ms = 1000, by_session = 0, key = K, fn = f\<rparr>,
                \<lparr>at_ms = 1000, by_session = 1, key = K, fn = f\<rparr>],
       snackbars = [], uncaught = []\<rparr>"
    using f
    by (simp add: w2 tick_ms_def upt_rec fire_due_def interval_callback_def post_def
        update_session_def)
  finally have w3: "elapse 1000 ?w2 = \<dots>" .
  show ?thesis
    using f by (simp add: w3 idle) (simp add: w2)
qed

text \<open>
  C8. As long as no fetch has resolved, the hook returns the empty array for every key and
  wherever the reader stands; a provider's reducer starts from the empty array, and the
  default value of each of the three contexts is the empty array.
\<close>
theorem empty_before_first_fetch:
  fixes evs :: "('a, 'e) event list"
  assumes "\<forall>fid d. Resolve fid d \<notin> set evs"
  shows "useClientDataState (run module_load evs) encl k = Some [] \<and>
         state (last (sessions (ClientDataProvider w k'))) = [] \<and>
         map (defaultValue \<circ> snd) (clientDataContexts :: (endpoint \<times> 'a ctx) list) = [[], [], []]"
proof -
  have "all_empty (module_load :: 'a world)"
    by (simp add: all_empty_def module_load_def)
  with assms have "all_empty (run (module_load :: 'a world) evs)"
    by (simp add: all_empty_run)
  then have "useClientDataState (run module_load evs) encl k = Some []"
    by (simp add: useClientDataState_all_empty reachable_ok)
  then show ?thesis
    by (simp add: sessions_ClientDataProvider clientDataContexts_def createContext_def)
qed

theorem empty_before_first_fetch_witness:
  "useClientDataState
     (run (module_load :: nat world)
          [Mount sweeps, Elapse 2500, Reject 0 (), Mount notebooks :: (nat, unit) event])
     [1, 0] sweeps = Some []"
proof -
  have h: "\<forall>fid d. Resolve fid d \<notin>
      set [Mount sweeps, Elapse 2500, Reject 0 (), Mount notebooks :: (nat, unit) event]"
    by simp
  from empty_before_first_fetch
         [OF h, where encl = "[1, 0]" and k = sweeps and w = "module_load :: nat world"
            and k' = sweeps]
  show ?thesis by simp
qed

text \<open>
  C9. The endpoint keys are the closed set \<open>sweeps\<close>, \<open>notebooks\<close>, \<open>tensorboards\<close>; the
  table of fetch functions and the table of contexts have exactly these keys, each once;
  and whatever sequence of mounts, renders, unmounts, timer ticks and settled promises
  follows the loading of the module, both tables are still the ones built at load time.
\<close>
theorem endpoint_registry_fixed:
  "UNIV = {sweeps, notebooks, tensorboards} \<and>
   map fst clientEndpoints = [sweeps, notebooks, tensorboards] \<and>
   map fst (clientDataContexts :: (endpoint \<times> 'a ctx) list) = [sweeps, notebooks, tensorboards] \<and>
   distinct (map fst clientEndpoints) \<and>
   distinct (map fst (clientDataContexts :: (endpoint \<times> 'a ctx) list)) \<and>
   distinct (map (ctx_id \<circ> snd) (clientDataContexts :: (endpoint \<times> 'a ctx) list)) \<and>
   endpoints_tbl (run (module_load :: 'a world) evs) = clientEndpoints \<and>
   contexts_tbl (run (module_load :: 'a world) evs) = clientDataContexts"
proof -
  have "UNIV = {sweeps, notebooks, tensorboards}"
    by (auto intro: endpoint.exhaust)
  moreover have "tables_ok (run (module_load :: 'a world) evs)"
    by (simp add: reachable_ok)
  ultimately show ?thesis
    by (simp add: tables_ok_def clientEndpoints_def clientDataContexts_def createContext_def)
qed

text \<open>
  C10. The endpoint a provider polls is the one it was mounted with. Mount a provider for
  \<open>K\<close> and, at any later time before it is unmounted, render it again with the prop \<open>K'\<close>.
  The render changes the prop and nothing else: it sends no request and leaves the pending
  promises and the timer as they are. From then on, as long as the provider is not
  unmounted, the effect's closure still holds \<open>K\<close> and the provider goes on fetching on the
  schedule it started at its mount: its requests are exactly one at the mount time and one
  at every multiple of 1000 ms after it that the clock has reached, every one of them for
  \<open>K\<close>, none for \<open>K'\<close>.
\<close>
theorem endpoint_fixed_at_mount:
  assumes "w = run module_load evs" and "sid = length (sessions w)"
    and "w1 = run (ClientDataProvider w K) evs1" and "Unmount sid \<notin> set evs1"
    and "w2 = run (rerender w1 sid K') evs2" and "Unmount sid \<notin> set evs2"
  shows "props_endpoint (sessions (rerender w1 sid K') ! sid) = K' \<and>
         calls (rerender w1 sid K') = calls w1 \<and>
         inflight (rerender w1 sid K') = inflight w1 \<and>
         interval (sessions (rerender w1 sid K') ! sid) = interval (sessions w1 ! sid) \<and>
         effect_endpoint (sessions w2 ! sid) = K \<and>
         (\<exists>f. map_of clientEndpoints K = Some f \<and>
              calls_of sid w2 =
                map (\<lambda>j. \<lparr>at_ms = clock w + 1000 * j, by_session = sid, key = K, fn = f\<rparr>)
                    [0..<Suc ((clock w2 - clock w) div 1000)])"
proof -
  from assms(1) have ok: "tables_ok w" "calls_ok w" by (simp_all add: reachable_ok)
  obtain f where f: "map_of clientEndpoints K = Some f"
    by (simp add: map_of_clientEndpoints)
  with ok have tbl: "map_of (endpoints_tbl w) K = Some f" by (simp add: tables_ok_def)
  from ok have "calls_of (length (sessions w)) w = []" by (simp add: calls_ok_fresh)
  with tbl have "polling sid (clock w) K f (clock (ClientDataProvider w K)) (ClientDataProvider w K)"
    unfolding assms(2) by (simp add: polling_mount)
  from polling_run [OF this assms(4)] have p1: "polling sid (clock w) K f (clock w1) w1"
    by (simp add: assms(3))
  then have sid: "sid < length (sessions w1)" and m: "mounted (sessions w1 ! sid)"
    by (simp_all add: polling_def)
  from p1 have "polling sid (clock w) K f (clock (step w1 (Rerender sid K' :: ('a, 'd) event)))
      (step w1 (Rerender sid K' :: ('a, 'd) event))"
    by (rule polling_step) simp
  then have "polling sid (clock w) K f (clock (rerender w1 sid K')) (rerender w1 sid K')"
    by simp
  from polling_run [OF this assms(6)] have p2: "polling sid (clock w) K f (clock w2) w2"
    by (simp add: assms(5))
  then have "effect_endpoint (sessions w2 ! sid) = K" and "calls_of sid w2 =
      map (\<lambda>j. \<lparr>at_ms = clock w + 1000 * j, by_session = sid, key = K, fn = f\<rparr>)
          [0..<Suc ((clock w2 - clock w) div 1000)]"
    by (simp_all add: polling_def)
  with f sid m show ?thesis
    by (simp add: rerender_nth)
qed

theorem endpoint_fixed_at_mount_witness:
  "Unmount 0 \<notin> set [Elapse 500 :: (nat, unit) event] \<and>
   Unmount 0 \<notin> set [Elapse 1000 :: (nat, unit) event] \<and>
   props_endpoint
     (sessions (rerender (run (ClientDataProvider (module_load :: nat world) sweeps)
                              [Elapse 500 :: (nat, unit) event]) 0 notebooks) ! 0) = notebooks \<and>
   calls_of 0 (run (ClientDataProvider (module_load :: nat world) sweeps)
                   [Elapse 500 :: (nat, unit) event]) =
     [\<lparr>at_ms = 0, by_session = 0, key = sweeps, fn = showSweepsCommandShowSweepsPost\<rparr>] \<and>
   calls_of 0 (run (rerender (run (ClientDataProvider (module_load :: nat world) sweeps)
                                  [Elapse 500 :: (nat, unit) event]) 0 notebooks)
                   [Elapse 1000 :: (nat, unit) event]) =
     [\<lparr>at_ms = 0, by_session = 0, key = sweeps, fn = showSweepsCommandShowSweepsPost\<rparr>,
      \<lparr>at_ms = 1000, by_session = 0, key = sweeps, fn = showSweepsCommandShowSweepsPost\<rparr>]"
proof -
  have h1: "Unmount (length (sessions (run (module_load :: nat world) ([] :: (nat, unit) event list))))
              \<notin> set [Elapse 500 :: (nat, unit) event]"
    and h2: "Unmount (length (sessions (run (module_load :: nat world) ([] :: (nat, unit) event list))))
              \<notin> set [Elapse 1000 :: (nat, unit) event]"
    by simp_all
  have h0: "Unmount (length (sessions (run (module_load :: nat world) ([] :: (nat, unit) event list))))
              \<notin> set ([] :: (nat, unit) event list)"
    by simp
  from endpoint_fixed_at_mount
         [where evs = "[] :: (nat, unit) event list" and K = sweeps and K' = notebooks,
          OF refl refl refl h1 refl h2]
       endpoint_fixed_at_mount
         [where evs = "[] :: (nat, unit) event list" and K = sweeps and K' = notebooks
            and ?evs2.0 = "[] :: (nat, unit) event list",
          OF refl refl refl h1 refl h0]
  show ?thesis
    by (simp add: clientEndpoints_def module_load_def upt_rec)
qed

end
